theory Spec2Isabelle
  imports Main "HOL-Library.AList"
begin

section \<open>The track catalog (itunes.py)\<close>

text \<open>
  Of an \<open>iTunesTrack\<close> only the attributes the engine reads are kept. The attribute
  \<open>size\<close> is called \<open>size_bytes\<close> here, since \<open>size\<close> is a constant of HOL. Python
  integers are unbounded, so they are \<open>int\<close>. \<open>artist\<close>, \<open>album\<close> and \<open>genre\<close> start
  as \<open>None\<close> in the constructor.
\<close>

record iTunesTrack =
  track_id :: int
  persistent_id :: string
  artist :: "string option"
  album :: "string option"
  genre :: "string option"
  size_bytes :: int
  location :: string

record iTunesPlaylist =
  playlist_name :: string
  playlist_tracks :: "int list"

text \<open>
  The generators \<open>iTunesLibrary.tracks\<close> and \<open>iTunesLibrary.playlists\<close> yield the
  entries of the parsed file in file order, anew at every access: a list each.
\<close>

record iTunesLibrary =
  music_folder :: string
  lib_tracks :: "iTunesTrack list"
  lib_playlists :: "iTunesPlaylist list"

section \<open>Filter sets (config.py, HibikiConfigFilters)\<close>

text \<open>
  The members of a filter set are hashable Python values: what \<open>add_album\<close> and its
  siblings put there are strings, what \<open>load_from_file\<close> puts there is whatever the
  JSON lists hold. \<open>True\<close> and \<open>False\<close> are the integers 1 and 0 to a Python set.
\<close>

datatype pyval = PNone | PInt int | PStr string

record HibikiConfigFilters =
  albums :: "pyval set"
  artists :: "pyval set"
  genres :: "pyval set"
  playlists :: "pyval set"
  filter_tracks :: "int set"

definition attr_val :: "string option \<Rightarrow> pyval" where
  "attr_val a = (case a of None \<Rightarrow> PNone | Some s \<Rightarrow> PStr s)"

definition is_filtered :: "HibikiConfigFilters \<Rightarrow> iTunesTrack \<Rightarrow> bool" where
  "is_filtered f t =
     (if attr_val (album t) \<in> albums f then True
      else if attr_val (artist t) \<in> artists f then True
      else if attr_val (genre t) \<in> genres f then True
      else if track_id t \<in> filter_tracks f then True
      else False)"

fun get_playlist_tracks :: "iTunesPlaylist list \<Rightarrow> HibikiConfigFilters \<Rightarrow> HibikiConfigFilters" where
  "get_playlist_tracks [] f = f"
| "get_playlist_tracks (p # ps) f =
     (if PStr (playlist_name p) \<in> playlists f
      then get_playlist_tracks ps (f\<lparr>filter_tracks := filter_tracks f \<union> set (playlist_tracks p)\<rparr>)
      else get_playlist_tracks ps f)"

section \<open>The planner: the admission loops of generate_sync_list (core.py)\<close>

text \<open>
  The first loop of \<open>generate_sync_list\<close>, over the catalog in catalog order. The
  state of the loop is the local \<open>space\<close> and the plan \<open>self.tracks\<close>.
\<close>

fun main_pass ::
  "HibikiConfigFilters \<Rightarrow> HibikiConfigFilters \<Rightarrow> iTunesTrack list \<Rightarrow> int \<times> string set \<Rightarrow> int \<times> string set"
where
  "main_pass ex inc [] (space, plan) = (space, plan)"
| "main_pass ex inc (t # ts) (space, plan) =
     (if is_filtered ex t then main_pass ex inc ts (space, plan)
      else if is_filtered inc t then
        (if space \<ge> size_bytes t
         then main_pass ex inc ts (space - size_bytes t, insert (persistent_id t) plan)
         else main_pass ex inc ts (space, plan))
      else main_pass ex inc ts (space, plan))"

text \<open>
  The random-fill loop. \<open>random.seed()\<close> seeds the generator from the operating
  system, so the draws are arbitrary: \<open>rnd k\<close> is the k-th draw, and
  \<open>random.sample(music, 1)[0]\<close> is the element at \<open>rnd k mod len(music)\<close>. Track objects
  compare by identity, so \<open>music.remove(track)\<close> removes the element that was drawn.
\<close>

definition remove_nth :: "nat \<Rightarrow> 'a list \<Rightarrow> 'a list" where
  "remove_nth i xs = take i xs @ drop (Suc i) xs"

text \<open>What the body of the \<open>while\<close> loop does to \<open>space\<close> and \<open>self.tracks\<close> for the track drawn.\<close>

definition fill_step :: "HibikiConfigFilters \<Rightarrow> iTunesTrack \<Rightarrow> int \<times> string set \<Rightarrow> int \<times> string set" where
  "fill_step ex t st =
     (case st of (space, plan) \<Rightarrow>
        if \<not> is_filtered ex t then
          (if persistent_id t \<notin> plan then
             (if space \<ge> size_bytes t
              then (space - size_bytes t, insert (persistent_id t) plan)
              else (space, plan))
           else (space, plan))
        else (space, plan))"

function random_fill_loop ::
  "(nat \<Rightarrow> nat) \<Rightarrow> nat \<Rightarrow> HibikiConfigFilters \<Rightarrow> iTunesTrack list \<Rightarrow> int \<times> string set \<Rightarrow> int \<times> string set"
where
  "random_fill_loop rnd k ex music st =
     (if length music > 0 then
        (let i = rnd k mod length music;
             track = music ! i
         in random_fill_loop rnd (Suc k) ex (remove_nth i music) (fill_step ex track st))
      else st)"
  by pat_completeness auto
termination
proof (relation "measure (\<lambda>(rnd, k, ex, music, st). length music)", goal_cases)
  case 1
  show ?case by simp
next
  case (2 rnd k ex music st i track)
  from 2(1) have "rnd k mod length music < length music" by simp
  with 2(2) show ?case by (simp add: remove_nth_def)
qed

declare random_fill_loop.simps [simp del]

text \<open>
  Both loops together: what \<open>generate_sync_list\<close> does to \<open>space\<close> and \<open>self.tracks\<close>
  between the call of \<open>calculate_space\<close> and the call of \<open>_clean_sync_list\<close>.
\<close>

definition planner ::
  "(nat \<Rightarrow> nat) \<Rightarrow> bool \<Rightarrow> HibikiConfigFilters \<Rightarrow> HibikiConfigFilters \<Rightarrow> iTunesTrack list
     \<Rightarrow> int \<times> string set \<Rightarrow> int \<times> string set"
where
  "planner rnd fill ex inc cat st =
     (let st1 = main_pass ex inc cat st
      in if fill then random_fill_loop rnd 0 ex cat st1 else st1)"

text \<open>
  The same loops with a trace: the third component collects, in order, the tracks
  for which the admission branch (\<open>space -= track.size; self.tracks.add(...)\<close>) runs,
  each with the value of \<open>space\<close> at that moment, before the decrement.
  The trace is not part of the program; \<open>main_pass_log_sound\<close> and
  \<open>random_fill_log_sound\<close> below show that the budget and the plan are those of the
  loops above.
\<close>

fun main_pass_log ::
  "HibikiConfigFilters \<Rightarrow> HibikiConfigFilters \<Rightarrow> iTunesTrack list
     \<Rightarrow> int \<times> string set \<times> (iTunesTrack \<times> int) list \<Rightarrow> int \<times> string set \<times> (iTunesTrack \<times> int) list"
where
  "main_pass_log ex inc [] (space, plan, adm) = (space, plan, adm)"
| "main_pass_log ex inc (t # ts) (space, plan, adm) =
     (if is_filtered ex t then main_pass_log ex inc ts (space, plan, adm)
      else if is_filtered inc t then
        (if space \<ge> size_bytes t
         then main_pass_log ex inc ts (space - size_bytes t, insert (persistent_id t) plan, adm @ [(t, space)])
         else main_pass_log ex inc ts (space, plan, adm))
      else main_pass_log ex inc ts (space, plan, adm))"

definition fill_step_log ::
  "HibikiConfigFilters \<Rightarrow> iTunesTrack \<Rightarrow> int \<times> string set \<times> (iTunesTrack \<times> int) list
     \<Rightarrow> int \<times> string set \<times> (iTunesTrack \<times> int) list"
where
  "fill_step_log ex t st =
     (case st of (space, plan, adm) \<Rightarrow>
        if \<not> is_filtered ex t then
          (if persistent_id t \<notin> plan then
             (if space \<ge> size_bytes t
              then (space - size_bytes t, insert (persistent_id t) plan, adm @ [(t, space)])
              else (space, plan, adm))
           else (space, plan, adm))
        else (space, plan, adm))"

function random_fill_log ::
  "(nat \<Rightarrow> nat) \<Rightarrow> nat \<Rightarrow> HibikiConfigFilters \<Rightarrow> iTunesTrack list
     \<Rightarrow> int \<times> string set \<times> (iTunesTrack \<times> int) list \<Rightarrow> int \<times> string set \<times> (iTunesTrack \<times> int) list"
where
  "random_fill_log rnd k ex music st =
     (if length music > 0 then
        (let i = rnd k mod length music;
             track = music ! i
         in random_fill_log rnd (Suc k) ex (remove_nth i music) (fill_step_log ex track st))
      else st)"
  by pat_completeness auto
termination
proof (relation "measure (\<lambda>(rnd, k, ex, music, st). length music)", goal_cases)
  case 1
  show ?case by simp
next
  case (2 rnd k ex music st i track)
  from 2(1) have "rnd k mod length music < length music" by simp
  with 2(2) show ?case by (simp add: remove_nth_def)
qed

declare random_fill_log.simps [simp del]

definition planner_log ::
  "(nat \<Rightarrow> nat) \<Rightarrow> bool \<Rightarrow> HibikiConfigFilters \<Rightarrow> HibikiConfigFilters \<Rightarrow> iTunesTrack list
     \<Rightarrow> int \<times> string set \<times> (iTunesTrack \<times> int) list \<Rightarrow> int \<times> string set \<times> (iTunesTrack \<times> int) list"
where
  "planner_log rnd fill ex inc cat st =
     (let st1 = main_pass_log ex inc cat st
      in if fill then random_fill_log rnd 0 ex cat st1 else st1)"

text \<open>
  \<open>admissions b adm b'\<close>: the trace \<open>adm\<close> leads from the budget \<open>b\<close> to the budget \<open>b'\<close>.
  Each entry was admitted at the budget that the entries before it left, that budget
  was at least its size, and it took exactly its size from the budget.
\<close>

fun admissions :: "int \<Rightarrow> (iTunesTrack \<times> int) list \<Rightarrow> int \<Rightarrow> bool" where
  "admissions b [] b' = (b' = b)"
| "admissions b (e # es) b' =
     (snd e = b \<and> size_bytes (fst e) \<le> b \<and> admissions (b - size_bytes (fst e)) es b')"

definition total_size :: "(iTunesTrack \<times> int) list \<Rightarrow> int" where
  "total_size adm = sum_list (map (\<lambda>e. size_bytes (fst e)) adm)"

definition drop_log :: "int \<times> string set \<times> (iTunesTrack \<times> int) list \<Rightarrow> int \<times> string set" where
  "drop_log st = (fst st, fst (snd st))"

section \<open>Paths (posixpath) and decimal numerals\<close>

text \<open>
  \<open>os.path.join\<close> with two arguments: an absolute second argument replaces the
  first, otherwise the two are joined with one separator.
\<close>

definition path_join :: "string \<Rightarrow> string \<Rightarrow> string" where
  "path_join a b =
     (if take 1 b = ''/'' then b
      else if a = [] \<or> last a = CHR ''/'' then a @ b
      else a @ ''/'' @ b)"

definition basename :: "string \<Rightarrow> string" where
  "basename p = rev (takeWhile (\<lambda>c. c \<noteq> CHR ''/'') (rev p))"

text \<open>
  \<open>os.path.relpath(path, start)\<close> is only ever called on a path that \<open>_copy_file\<close>
  built by joining names onto the destination; there it is what follows the
  destination and its separator. Other arguments are returned as they are.
\<close>

definition relpath :: "string \<Rightarrow> string \<Rightarrow> string" where
  "relpath path start =
     (let s = (if start \<noteq> [] \<and> last start = CHR ''/'' then start else start @ ''/'')
      in if take (length s) path = s then drop (length s) path else path)"

text \<open>\<open>str(n)\<close> for a non-negative integer: its decimal digits.\<close>

definition digit_char :: "nat \<Rightarrow> char" where
  "digit_char d = ''0123456789'' ! d"

function str :: "nat \<Rightarrow> string" where
  "str n = (if n < 10 then [digit_char n] else str (n div 10) @ [digit_char (n mod 10)])"
  by pat_completeness auto
termination
  by (relation "measure id") auto

declare str.simps [simp del]

definition digit_val :: "char \<Rightarrow> nat" where
  "digit_val c = of_char c - 48"

definition nat_of_str :: "string \<Rightarrow> nat" where
  "nat_of_str cs = foldl (\<lambda>a c. 10 * a + digit_val c) 0 cs"

section \<open>Python dictionaries, JSON documents, exceptions\<close>

text \<open>
  A dictionary is an association list in insertion order with distinct keys:
  \<open>d[k] = v\<close> is \<open>AList.update\<close> (an existing key keeps its place), \<open>del d[k]\<close> is
  \<open>AList.delete\<close>, \<open>d[k]\<close> is \<open>map_of\<close>. \<open>py_dict\<close> builds the dictionary that
  \<open>json.load\<close> returns for the members of an object: of a repeated key the last
  value stays.
\<close>

definition py_dict :: "('k \<times> 'v) list \<Rightarrow> ('k \<times> 'v) list" where
  "py_dict kvs = foldl (\<lambda>d kv. AList.update (fst kv) (snd kv) d) [] kvs"

text \<open>JSON values as \<open>json.load\<close> returns them; numbers with a fraction are left out.\<close>

datatype json =
  JNull | JBool bool | JInt int | JStr string | JArr "json list" | JObj "(string \<times> json) list"

text \<open>
  What a text file holds, as far as \<open>json.load\<close> can tell: nothing at all, text that
  is not JSON (for both \<open>json.load\<close> raises \<open>ValueError\<close>), or a document.
\<close>

datatype 'a file_content = Empty_file | Not_json | Json 'a

datatype exn =
  FileNotFoundError
  | IsADirectoryError
  | NotADirectoryError
  | FileExistsError
  | NoSpaceError
  | InvalidConfigError string
  | AttributeError
  | TypeError
  | KeyError
  | UnboundLocalError

text \<open>
  The first five are \<open>OSError\<close>s: \<open>except OSError\<close> catches each of them, \<open>except
  FileNotFoundError\<close> only the first.
\<close>

definition is_OSError :: "exn \<Rightarrow> bool" where
  "is_OSError e = (e \<in> {FileNotFoundError, IsADirectoryError, NotADirectoryError,
                          FileExistsError, NoSpaceError})"

section \<open>Loading filter rules (config.py, HibikiConfigFilters.load_from_file)\<close>

definition HibikiConfigFilters_init :: HibikiConfigFilters where
  "HibikiConfigFilters_init =
     \<lparr>albums = {}, artists = {}, genres = {}, playlists = {}, filter_tracks = {}\<rparr>"

text \<open>
  \<open>set(items)\<close>: the members of a list (each must be hashable), the characters of a
  string, the keys of a dictionary; anything else is not iterable.
\<close>

fun hashable :: "json \<Rightarrow> bool" where
  "hashable (JArr xs) = False"
| "hashable (JObj kvs) = False"
| "hashable v = True"

fun pyval_of :: "json \<Rightarrow> pyval" where
  "pyval_of JNull = PNone"
| "pyval_of (JBool b) = PInt (if b then 1 else 0)"
| "pyval_of (JInt i) = PInt i"
| "pyval_of (JStr s) = PStr s"
| "pyval_of v = PNone"

fun py_set :: "json \<Rightarrow> exn + pyval set" where
  "py_set (JArr xs) = (if list_all hashable xs then Inr (set (map pyval_of xs)) else Inl TypeError)"
| "py_set (JStr s) = Inr (set (map (\<lambda>c. PStr [c]) s))"
| "py_set (JObj kvs) = Inr (set (map (\<lambda>kv. PStr (fst kv)) kvs))"
| "py_set v = Inl TypeError"

definition setattr :: "string \<Rightarrow> pyval set \<Rightarrow> HibikiConfigFilters \<Rightarrow> HibikiConfigFilters" where
  "setattr grp v f =
     (if grp = ''albums'' then f\<lparr>albums := v\<rparr>
      else if grp = ''artists'' then f\<lparr>artists := v\<rparr>
      else if grp = ''genres'' then f\<lparr>genres := v\<rparr>
      else if grp = ''playlists'' then f\<lparr>playlists := v\<rparr>
      else f)"

definition getattr :: "HibikiConfigFilters \<Rightarrow> string \<Rightarrow> pyval set" where
  "getattr f grp =
     (if grp = ''albums'' then albums f
      else if grp = ''artists'' then artists f
      else if grp = ''genres'' then genres f
      else if grp = ''playlists'' then playlists f
      else {})"

text \<open>
  The loop \<open>for group in [...]\<close> over a parsed object. An exception leaves the
  groups that were already assigned as they are.
\<close>

fun load_groups ::
  "(string \<times> json) list \<Rightarrow> string list \<Rightarrow> HibikiConfigFilters \<Rightarrow> exn option \<times> HibikiConfigFilters"
where
  "load_groups data [] f = (None, f)"
| "load_groups data (grp # gs) f =
     (let items = (case map_of data grp of None \<Rightarrow> JArr [] | Some v \<Rightarrow> v)
      in case py_set items of
           Inl e \<Rightarrow> (Some e, f)
         | Inr v \<Rightarrow> load_groups data gs (setattr grp v f))"

text \<open>
  \<open>load_from_file\<close>, applied to what is at the path (\<open>None\<close>: no file there).
  \<open>open\<close> stands outside the \<open>try\<close>; \<open>data.get\<close> needs a dictionary.
\<close>

definition load_from_file ::
  "json file_content option \<Rightarrow> HibikiConfigFilters \<Rightarrow> exn option \<times> HibikiConfigFilters"
where
  "load_from_file file f =
     (case file of
        None \<Rightarrow> (Some FileNotFoundError, f)
      | Some Empty_file \<Rightarrow> (Some (InvalidConfigError ''Filter file cannot be read''), f)
      | Some Not_json \<Rightarrow> (Some (InvalidConfigError ''Filter file cannot be read''), f)
      | Some (Json (JObj kvs)) \<Rightarrow>
          load_groups (py_dict kvs) [''albums'', ''artists'', ''genres'', ''playlists''] f
      | Some (Json v) \<Rightarrow> (Some AttributeError, f))"

section \<open>The engine's state (core.py, class Hibiki) and its environment\<close>

text \<open>
  Notifications: a callback that is registered is called, and the call is recorded.
\<close>

datatype event =
  Before_copy iTunesTrack
  | After_copy iTunesTrack
  | Copy_error iTunesTrack exn
  | Deleted "iTunesTrack + string"
  | Delete_error string exn

text \<open>
  One record holds what the methods read and change.
  \<^item> Of the \<open>Hibiki\<close> object: \<open>subfolder\<close> (the attribute \<open>_subfolder\<close>), \<open>tracks\<close> (the
    plan), \<open>itunes\<close>.
  \<^item> Of its \<open>HibikiConfig\<close>: \<open>destination\<close>, \<open>library_path_attr\<close> (whether the attribute
    \<open>_library_path\<close> is set), \<open>excludes\<close>, \<open>includes'\<close>, \<open>max_file_count\<close>,
    \<open>random_fill\<close>, \<open>use_subfolders\<close>.
  \<^item> Of the file system: \<open>files\<close> (the regular files, path and size in bytes),
    \<open>dirs\<close> (the directories), \<open>dir_st_size\<close> (the \<open>st_size\<close> that \<open>os.stat\<close> reports
    for a directory), \<open>library_file\<close> (the file at \<open>config.library_path\<close>, which
    \<open>files\<close> does not list; \<open>None\<close> when it does not exist), \<open>f_bavail\<close> and
    \<open>f_frsize\<close> (what \<open>os.statvfs\<close> reports for the destination), \<open>bytes_writable\<close>
    (how many bytes a file at a path can take before the disk is full; \<open>None\<close> for
    no limit).
  \<^item> \<open>events\<close>: the notifications delivered so far.
\<close>

record state =
  subfolder :: nat
  tracks :: "string set"
  itunes :: iTunesLibrary
  destination :: string
  library_path_attr :: bool
  excludes :: HibikiConfigFilters
  includes' :: HibikiConfigFilters
  max_file_count :: int
  random_fill :: bool
  use_subfolders :: bool
  files :: "(string \<times> nat) list"
  dirs :: "string list"
  dir_st_size :: "string \<Rightarrow> nat"
  library_file :: "(string \<times> string) list file_content option"
  f_bavail :: int
  f_frsize :: int
  bytes_writable :: "string \<Rightarrow> nat option"
  events :: "event list"

definition notify :: "bool \<Rightarrow> event \<Rightarrow> state \<Rightarrow> state" where
  "notify callback e s = (if callback then s\<lparr>events := events s @ [e]\<rparr> else s)"

subsection \<open>The calls into the file system\<close>

text \<open>
  What is at a path: a regular file, a directory, nothing, or nothing that can be
  reached because the path runs through a regular file (\<open>under_file\<close>: a regular
  file followed by a separator is an initial part of the path). The calls answer
  accordingly.
  \<^item> \<open>os.stat\<close> succeeds on a regular file and on a directory, raises
    \<open>NotADirectoryError\<close> under a regular file and \<open>FileNotFoundError\<close> on nothing.
  \<^item> \<open>os.remove\<close> removes a regular file and raises \<open>IsADirectoryError\<close> on a
    directory (\<open>PermissionError\<close> on some systems: an \<open>OSError\<close> that is not a
    \<open>FileNotFoundError\<close> either way), \<open>NotADirectoryError\<close> under a regular file,
    \<open>FileNotFoundError\<close> on nothing.
  \<^item> \<open>os.makedirs\<close>, called where there is no directory, raises \<open>FileExistsError\<close>
    on a regular file and \<open>NotADirectoryError\<close> under one, and creates the directory
    otherwise.
  \<^item> \<open>open(path, 'rb')\<close> gives the content of a regular file (here: its size);
    \<open>open(path, 'wb')\<close> cannot open a directory or a path under a regular file.
\<close>

definition under_file :: "state \<Rightarrow> string \<Rightarrow> bool" where
  "under_file s p = list_ex (\<lambda>f. take (length f + 1) p = f @ ''/'') (map fst (files s))"

definition os_stat :: "state \<Rightarrow> string \<Rightarrow> exn + nat" where
  "os_stat s p =
     (case map_of (files s) p of
        Some st_size \<Rightarrow> Inr st_size
      | None \<Rightarrow>
          if p \<in> set (dirs s) then Inr (dir_st_size s p)
          else if under_file s p then Inl NotADirectoryError
          else Inl FileNotFoundError)"

definition os_remove :: "string \<Rightarrow> state \<Rightarrow> exn + state" where
  "os_remove p s =
     (if map_of (files s) p \<noteq> None then Inr (s\<lparr>files := AList.delete p (files s)\<rparr>)
      else if p \<in> set (dirs s) then Inl IsADirectoryError
      else if under_file s p then Inl NotADirectoryError
      else Inl FileNotFoundError)"

definition os_makedirs :: "string \<Rightarrow> state \<Rightarrow> exn + state" where
  "os_makedirs p s =
     (if map_of (files s) p \<noteq> None then Inl FileExistsError
      else if under_file s p then Inl NotADirectoryError
      else Inr (s\<lparr>dirs := dirs s @ [p]\<rparr>))"

definition open_rb :: "state \<Rightarrow> string \<Rightarrow> exn + nat" where
  "open_rb s p =
     (case map_of (files s) p of
        Some n \<Rightarrow> Inr n
      | None \<Rightarrow>
          if p \<in> set (dirs s) then Inl IsADirectoryError
          else if under_file s p then Inl NotADirectoryError
          else Inl FileNotFoundError)"

definition open_wb :: "state \<Rightarrow> string \<Rightarrow> exn option" where
  "open_wb s p =
     (if p \<in> set (dirs s) then Some IsADirectoryError
      else if under_file s p then Some NotADirectoryError
      else None)"

subsection \<open>The state store: library_path and library_data\<close>

text \<open>
  The property \<open>HibikiConfig.library_path\<close>: on first access it fixes the path and
  creates a blank file there if there is none.
\<close>

definition library_path :: "state \<Rightarrow> state" where
  "library_path s =
     (if \<not> library_path_attr s
      then s\<lparr>library_path_attr := True,
             library_file := (case library_file s of None \<Rightarrow> Some Empty_file | Some c \<Rightarrow> Some c)\<rparr>
      else s)"

text \<open>The getter and the setter of \<open>Hibiki.library_data\<close>.\<close>

definition library_data :: "state \<Rightarrow> (exn + (string \<times> string) list) \<times> state" where
  "library_data s =
     (let s1 = library_path s
      in case library_file s1 of
           None \<Rightarrow> (Inl FileNotFoundError, s1)
         | Some Empty_file \<Rightarrow> (Inr [], s1)
         | Some Not_json \<Rightarrow> (Inr [], s1)
         | Some (Json d) \<Rightarrow> (Inr (py_dict d), s1))"

definition set_library_data :: "(string \<times> string) list \<Rightarrow> state \<Rightarrow> state" where
  "set_library_data v s = (library_path s)\<lparr>library_file := Some (Json v)\<rparr>"

subsection \<open>target_directory and _copy_file\<close>

text \<open>
  \<open>os.listdir(directory)\<close>: the names of the files and directories right below it.
\<close>

definition child_name :: "string \<Rightarrow> string \<Rightarrow> string option" where
  "child_name d p =
     (let n = drop (length d + 1) p
      in if take (length d + 1) p = d @ ''/'' \<and> n \<noteq> [] \<and> CHR ''/'' \<notin> set n
         then Some n else None)"

definition listdir :: "state \<Rightarrow> string \<Rightarrow> string list" where
  "listdir s d = remdups (List.map_filter (child_name d) (map fst (files s) @ dirs s))"

definition file_count :: "state \<Rightarrow> string \<Rightarrow> nat" where
  "file_count s d = length (filter (\<lambda>file. take 1 file \<noteq> ''.'') (listdir s d))"

text \<open>
  The \<open>while True\<close> loop of \<open>target_directory\<close>. \<open>os.path.isdir\<close> holds of a
  directory; where there is none, what \<open>os.makedirs\<close> raises leaves the loop. The
  loop ends because the destination has finitely many directories and different
  indices name different directories.
\<close>

function subfolder_loop :: "state \<Rightarrow> (exn + string) \<times> state" where
  "subfolder_loop s =
     (let directory = path_join (destination s) (str (subfolder s))
      in if directory \<in> set (dirs s) then
           (if int (file_count s directory) < max_file_count s
            then (Inr directory, s)
            else subfolder_loop (s\<lparr>subfolder := subfolder s + 1\<rparr>))
         else (case os_makedirs directory s of
                 Inl e \<Rightarrow> (Inl e, s)
               | Inr s1 \<Rightarrow> (Inr directory, s1)))"
  by pat_completeness auto
termination
proof -
  have digit: "digit_val (digit_char d) = d" if "d < 10" for d
  proof -
    from that have "d \<in> {0, 1, 2, 3, 4, 5, 6, 7, 8, 9}" by auto
    then show ?thesis by (auto simp: digit_val_def digit_char_def)
  qed
  have inv: "nat_of_str (str n) = n" for n
  proof (induction n rule: str.induct)
    case (1 n)
    show ?case
    proof (cases "n < 10")
      case True
      then show ?thesis by (simp add: str.simps [of n] nat_of_str_def digit)
    next
      case False
      with 1 have "nat_of_str (str (n div 10)) = n div 10" by simp
      with False show ?thesis by (simp add: str.simps [of n] nat_of_str_def digit)
    qed
  qed
  have nonempty: "str n \<noteq> []" for n
    by (simp add: str.simps [of n])
  have noslash: "CHR ''/'' \<notin> set (str n)" for n
  proof (induction n rule: str.induct)
    case (1 n)
    have dn: "CHR ''/'' \<noteq> digit_char d" if "d < 10" for d
    proof -
      from that have "d \<in> {0, 1, 2, 3, 4, 5, 6, 7, 8, 9}" by auto
      then show ?thesis by (auto simp: digit_char_def)
    qed
    from 1 show ?case by (cases "n < 10") (simp_all add: str.simps [of n] dn)
  qed
  have inj: "m = n" if "path_join d (str m) = path_join d (str n)" for d m n
  proof -
    have "take 1 (str k) \<noteq> ''/''" for k
      using noslash [of k] nonempty [of k] by (cases "str k") auto
    with that have "str m = str n" by (auto simp: path_join_def split: if_splits)
    then have "nat_of_str (str m) = nat_of_str (str n)" by simp
    then show ?thesis by (simp add: inv)
  qed
  let ?later = "\<lambda>s. {n. subfolder s \<le> n \<and> path_join (destination s) (str n) \<in> set (dirs s)}"
  have fin: "finite (?later s)" for s :: state
  proof -
    have "inj (\<lambda>n. path_join (destination s) (str n))" by (rule injI) (rule inj)
    then have "finite ((\<lambda>n. path_join (destination s) (str n)) -` set (dirs s))"
      by (simp add: finite_vimageI)
    then show ?thesis by (rule rev_finite_subset) auto
  qed
  show ?thesis
  proof (relation "measure (\<lambda>s. card (?later s))", goal_cases)
    case 1
    show ?case by simp
  next
    case (2 s directory)
    let ?s' = "s\<lparr>subfolder := subfolder s + 1\<rparr>"
    from 2 have here: "subfolder s \<in> ?later s" by simp
    have "subfolder s \<notin> ?later ?s'" by simp
    moreover have "?later ?s' \<subseteq> ?later s" by auto
    ultimately have "?later ?s' \<subset> ?later s" using here by blast
    then have "card (?later ?s') < card (?later s)" by (rule psubset_card_mono [OF fin])
    then show ?case by simp
  qed
qed

declare subfolder_loop.simps [simp del]

definition target_directory :: "state \<Rightarrow> (exn + string) \<times> state" where
  "target_directory s = (if use_subfolders s then subfolder_loop s else (Inr (destination s), s))"

text \<open>The properties \<open>iTunesTrack.filename\<close> and \<open>iTunesTrack.path\<close>.\<close>

definition filename :: "iTunesTrack \<Rightarrow> string" where
  "filename t = basename (location t)"

definition track_path :: "iTunesLibrary \<Rightarrow> iTunesTrack \<Rightarrow> string" where
  "track_path l t = path_join (music_folder l) (location t)"

text \<open>
  \<open>_copy_file\<close>. The target directory is determined first, then the source is
  opened, then the destination is opened for writing, which creates or empties it,
  and the bytes are copied: when the disk fills up, the part that fitted stays
  behind and an \<open>OSError\<close> is raised. What \<open>target_directory\<close> did stays done when
  the copy fails.
\<close>

definition copy_file :: "iTunesTrack \<Rightarrow> state \<Rightarrow> (exn + string) \<times> state" where
  "copy_file t s =
     (case target_directory s of
        (Inl e, s1) \<Rightarrow> (Inl e, s1)
      | (Inr directory, s1) \<Rightarrow>
          (let destination_path = path_join directory (filename t);
               source = track_path (itunes s1) t
           in case open_rb s1 source of
                Inl e \<Rightarrow> (Inl e, s1)
              | Inr n \<Rightarrow>
                  (case open_wb s1 destination_path of
                     Some e \<Rightarrow> (Inl e, s1)
                   | None \<Rightarrow>
                       (let n' = (if source = destination_path then 0 else n)
                        in case bytes_writable s1 destination_path of
                             None \<Rightarrow>
                               (Inr destination_path,
                                s1\<lparr>files := AList.update destination_path n' (files s1)\<rparr>)
                           | Some k \<Rightarrow>
                               (if n' \<le> k
                                then (Inr destination_path,
                                      s1\<lparr>files := AList.update destination_path n' (files s1)\<rparr>)
                                else (Inl NoSpaceError,
                                      s1\<lparr>files := AList.update destination_path k (files s1)\<rparr>))))))"

subsection \<open>Reconciliation: _clean_sync_list\<close>

fun track_by_persistent_id :: "iTunesTrack list \<Rightarrow> string \<Rightarrow> iTunesTrack option" where
  "track_by_persistent_id [] pid = None"
| "track_by_persistent_id (t # ts) pid =
     (if persistent_id t = pid then Some t else track_by_persistent_id ts pid)"

text \<open>
  The loop \<open>for track in library.copy()\<close>: the keys are those of the dictionary at the
  start, \<open>library\<close> is the dictionary that shrinks. When \<open>os.remove\<close> raises
  \<open>FileNotFoundError\<close>, the handler notifies and goes on to the next key, and the
  entry stays. Any other exception of \<open>os.remove\<close> leaves the loop and the method,
  before \<open>self.library_data\<close> is assigned.
\<close>

fun clean_loop ::
  "bool \<Rightarrow> bool \<Rightarrow> string list \<Rightarrow> (string \<times> string) list \<times> state
     \<Rightarrow> exn option \<times> (string \<times> string) list \<times> state"
where
  "clean_loop delete_callback error_callback [] (library, s) = (None, library, s)"
| "clean_loop delete_callback error_callback (track # ks) (library, s) =
     (if track \<in> tracks s
      then clean_loop delete_callback error_callback ks (library, s\<lparr>tracks := tracks s - {track}\<rparr>)
      else case map_of library track of
             None \<Rightarrow> (Some KeyError, library, s)
           | Some rel \<Rightarrow>
               (let path = path_join (destination s) rel
                in case os_remove path s of
                     Inl error \<Rightarrow>
                       (if error = FileNotFoundError
                        then clean_loop delete_callback error_callback ks
                               (library, notify error_callback (Delete_error path error) s)
                        else (Some error, library, s))
                   | Inr s1 \<Rightarrow>
                       (let data = (case track_by_persistent_id (lib_tracks (itunes s1)) track of
                                      None \<Rightarrow> Inr rel | Some t \<Rightarrow> Inl t);
                            s2 = notify delete_callback (Deleted data) s1
                        in clean_loop delete_callback error_callback ks (AList.delete track library, s2))))"

definition clean_sync_list :: "bool \<Rightarrow> bool \<Rightarrow> state \<Rightarrow> exn option \<times> state" where
  "clean_sync_list delete_callback error_callback s =
     (case library_data s of
        (Inl e, s1) \<Rightarrow> (Some e, s1)
      | (Inr library, s1) \<Rightarrow>
          (case clean_loop delete_callback error_callback (map fst library) (library, s1) of
             (Some e, library', s2) \<Rightarrow> (Some e, s2)
           | (None, library', s2) \<Rightarrow> (None, set_library_data library' s2)))"

definition mark_file :: "iTunesTrack \<Rightarrow> string \<Rightarrow> state \<Rightarrow> exn option \<times> state" where
  "mark_file t dest_path s =
     (case library_data s of
        (Inl e, s1) \<Rightarrow> (Some e, s1)
      | (Inr data, s1) \<Rightarrow>
          (None, set_library_data
                   (AList.update (persistent_id t) (relpath dest_path (destination s1)) data) s1))"

subsection \<open>Space accounting: space_available and calculate_space\<close>

definition space_available :: "int \<Rightarrow> state \<Rightarrow> int" where
  "space_available reserve s = f_bavail s * f_frsize s - reserve * 1024 * 1024"

definition full_library_path :: "state \<Rightarrow> string \<Rightarrow> string" where
  "full_library_path s track = path_join (destination s) track"

text \<open>
  The loop of \<open>calculate_space\<close>. When \<open>os.stat\<close> raises \<open>FileNotFoundError\<close> the
  entry is deleted; any other exception of \<open>os.stat\<close> leaves the loop and the
  method, before \<open>self.library_data\<close> is assigned.
\<close>

fun space_loop ::
  "state \<Rightarrow> string list \<Rightarrow> (string \<times> string) list \<times> int \<Rightarrow> exn + (string \<times> string) list \<times> int"
where
  "space_loop s [] (library, available) = Inr (library, available)"
| "space_loop s (track # ks) (library, available) =
     (case map_of library track of
        None \<Rightarrow> Inl KeyError
      | Some rel \<Rightarrow>
          (case os_stat s (full_library_path s rel) of
             Inl error \<Rightarrow>
               (if error = FileNotFoundError
                then space_loop s ks (AList.delete track library, available)
                else Inl error)
           | Inr st_size \<Rightarrow> space_loop s ks (library, available + int st_size)))"

definition calculate_space :: "state \<Rightarrow> (exn + int) \<times> state" where
  "calculate_space s =
     (let available = space_available 5 s
      in case library_data s of
           (Inl e, s1) \<Rightarrow> (Inl e, s1)
         | (Inr library, s1) \<Rightarrow>
             (case space_loop s1 (map fst library) (library, available) of
                Inl e \<Rightarrow> (Inl e, s1)
              | Inr (library', available') \<Rightarrow> (Inr available', set_library_data library' s1)))"

subsection \<open>generate_sync_list\<close>

definition generate_sync_list :: "(nat \<Rightarrow> nat) \<Rightarrow> bool \<Rightarrow> bool \<Rightarrow> state \<Rightarrow> exn option \<times> state" where
  "generate_sync_list rnd delete_callback error_callback s =
     (case calculate_space s of
        (Inl e, s1) \<Rightarrow> (Some e, s1)
      | (Inr space, s1) \<Rightarrow>
          (let s2 = s1\<lparr>excludes := get_playlist_tracks (lib_playlists (itunes s1)) (excludes s1)\<rparr>;
               s3 = s2\<lparr>includes' := get_playlist_tracks (lib_playlists (itunes s2)) (includes' s2)\<rparr>;
               (space', plan) = planner rnd (random_fill s3) (excludes s3) (includes' s3)
                                  (lib_tracks (itunes s3)) (space, tracks s3)
           in clean_sync_list delete_callback error_callback (s3\<lparr>tracks := plan\<rparr>)))"

subsection \<open>copy_tracks\<close>

text \<open>
  The parameter \<open>end_signal\<close> is any Python object, and \<open>not end_signal\<close> asks for its
  truth value each time it is evaluated: \<open>flag k\<close> is the truth value the caller's
  object has at the k-th evaluation, counted from 0. The evaluation 0 is the one
  of \<open>if not end_signal\<close>, which rebinds the local name to the constant \<open>False\<close>.

  The local variable \<open>destination\<close> is only bound when \<open>_copy_file\<close> returns: it is
  \<open>None\<close> until the first copy succeeds, and it keeps the path of the last copy that
  succeeded. Reading it unbound raises \<open>UnboundLocalError\<close>. In the handler
  \<open>continue\<close> stands under \<open>if error_callback\<close>: without a callback the loop body goes
  on to \<open>_mark_file\<close>.
\<close>

fun copy_loop ::
  "bool \<Rightarrow> bool \<Rightarrow> bool \<Rightarrow> (nat \<Rightarrow> bool) \<Rightarrow> nat \<Rightarrow> iTunesTrack list \<Rightarrow> string option \<times> state
     \<Rightarrow> exn option \<times> string option \<times> state"
where
  "copy_loop after_callback before_callback error_callback end_signal k [] (dest, s) = (None, dest, s)"
| "copy_loop after_callback before_callback error_callback end_signal k (track # ts) (dest, s) =
     (if end_signal k then (None, dest, s)
      else if persistent_id track \<in> tracks s then
        (let s1 = notify before_callback (Before_copy track) s
         in case copy_file track s1 of
              (Inr d, s2) \<Rightarrow>
                (case mark_file track d s2 of
                   (Some e, s3) \<Rightarrow> (Some e, Some d, s3)
                 | (None, s3) \<Rightarrow>
                     copy_loop after_callback before_callback error_callback end_signal (Suc k) ts
                       (Some d, notify after_callback (After_copy track) s3))
            | (Inl error, s2) \<Rightarrow>
                (case dest of
                   None \<Rightarrow> (Some UnboundLocalError, dest, s2)
                 | Some d \<Rightarrow>
                     (case os_remove d s2 of
                        Inl e \<Rightarrow> (Some e, dest, s2)
                      | Inr s3 \<Rightarrow>
                          (if error_callback
                           then copy_loop after_callback before_callback error_callback end_signal (Suc k) ts
                                  (dest, notify error_callback (Copy_error track error) s3)
                           else
                             (case mark_file track d s3 of
                                (Some e, s4) \<Rightarrow> (Some e, dest, s4)
                              | (None, s4) \<Rightarrow>
                                  copy_loop after_callback before_callback error_callback end_signal (Suc k) ts
                                    (dest, notify after_callback (After_copy track) s4))))))
      else copy_loop after_callback before_callback error_callback end_signal (Suc k) ts (dest, s))"

definition copy_tracks ::
  "bool \<Rightarrow> bool \<Rightarrow> bool \<Rightarrow> (nat \<Rightarrow> bool) option \<Rightarrow> state \<Rightarrow> exn option \<times> state"
where
  "copy_tracks after_callback before_callback error_callback end_signal s =
     (let track_iterator = lib_tracks (itunes s);
          flag = (case end_signal of
                    None \<Rightarrow> (\<lambda>k. False)
                  | Some f \<Rightarrow> if \<not> f 0 then (\<lambda>k. False) else f)
      in case copy_loop after_callback before_callback error_callback flag 1 track_iterator (None, s) of
           (r, dest, s') \<Rightarrow> (r, s'))"

text \<open>
  \<open>extends ex cat st st'\<close>: from \<open>st\<close> to \<open>st'\<close> the trace grew by admissions that lead
  from the budget of \<open>st\<close> to the budget of \<open>st'\<close>, the plan grew by exactly the
  identifiers of the tracks admitted, and each of them is a track of the catalog
  that the exclude filters do not match.
\<close>

definition extends ::
  "HibikiConfigFilters \<Rightarrow> iTunesTrack list \<Rightarrow> int \<times> string set \<times> (iTunesTrack \<times> int) list
     \<Rightarrow> int \<times> string set \<times> (iTunesTrack \<times> int) list \<Rightarrow> bool"
where
  "extends ex cat st st' =
     (\<exists>new. snd (snd st') = snd (snd st) @ new
        \<and> admissions (fst st) new (fst st')
        \<and> fst (snd st') = fst (snd st) \<union> persistent_id ` fst ` set new
        \<and> fst ` set new \<subseteq> {t \<in> set cat. \<not> is_filtered ex t})"

section \<open>Scenarios\<close>

text \<open>Scenario A: two included tracks of 600 and 500 bytes, in that order.\<close>

definition track_A1 :: iTunesTrack where
  "track_A1 = \<lparr>track_id = 1, persistent_id = ''id1'', artist = Some ''artist'', album = None,
     genre = None, size_bytes = 600, location = ''/music/one.mp3''\<rparr>"

definition track_A2 :: iTunesTrack where
  "track_A2 = \<lparr>track_id = 2, persistent_id = ''id2'', artist = Some ''artist'', album = None,
     genre = None, size_bytes = 500, location = ''/music/two.mp3''\<rparr>"

definition includes_A :: HibikiConfigFilters where
  "includes_A = HibikiConfigFilters_init\<lparr>artists := {PStr ''artist''}\<rparr>"

text \<open>A track that the include filters and the exclude filters both match.\<close>

definition track_X :: iTunesTrack where
  "track_X = \<lparr>track_id = 7, persistent_id = ''idX'', artist = Some ''artist'', album = Some ''live'',
     genre = None, size_bytes = 100, location = ''/music/live.mp3''\<rparr>"

definition excludes_X :: HibikiConfigFilters where
  "excludes_X = HibikiConfigFilters_init\<lparr>albums := {PStr ''live''}\<rparr>"

text \<open>
  A \<open>Hibiki\<close> object as its constructor leaves it, on an empty destination \<open>/usb\<close>
  that has no state file yet.
\<close>

definition usb :: state where
  "usb = \<lparr>subfolder = 0, tracks = {},
     itunes = \<lparr>music_folder = ''/music'', lib_tracks = [], lib_playlists = []\<rparr>,
     destination = ''/usb'', library_path_attr = False,
     excludes = HibikiConfigFilters_init, includes' = HibikiConfigFilters_init,
     max_file_count = 0, random_fill = False, use_subfolders = False,
     files = [], dirs = [''/usb''], dir_st_size = (\<lambda>p. 4096), library_file = None,
     f_bavail = 0, f_frsize = 4096, bytes_writable = (\<lambda>p. None), events = []\<rparr>"

section \<open>Reading the state store\<close>

text \<open>
  \<open>store_entries s\<close> is the dictionary that the getter of \<open>library_data\<close> reads in the
  state \<open>s\<close>. For a destination-relative path, \<open>file_exists\<close> says whether a regular
  file is at its full path; \<open>stat_missing\<close> and \<open>stat_blocked\<close> say that \<open>os.stat\<close>
  of the full path raises \<open>FileNotFoundError\<close> and \<open>NotADirectoryError\<close>, and
  \<open>stat_size\<close> is the size that \<open>os.stat\<close> reports when it succeeds.
\<close>

definition store_entries :: "state \<Rightarrow> (string \<times> string) list" where
  "store_entries s = (case library_file s of Some (Json d) \<Rightarrow> py_dict d | _ \<Rightarrow> [])"

definition file_exists :: "state \<Rightarrow> string \<Rightarrow> bool" where
  "file_exists s rel = (map_of (files s) (full_library_path s rel) \<noteq> None)"




text \<open>
  The destination after an earlier run: the store has two entries, and the file of
  the second one has been deleted by hand.
\<close>

definition usb_synced :: state where
  "usb_synced = usb\<lparr>library_path_attr := True,
     library_file := Some (Json [(''id1'', ''one.mp3''), (''id2'', ''gone.mp3'')]),
     files := [(''/usb/one.mp3'', 600)], f_bavail := 2000\<rparr>"

text \<open>
  Scenario C: subfolders with at most 2 files each, three tracks to copy, an empty
  destination.
\<close>

definition track_A3 :: iTunesTrack where
  "track_A3 = \<lparr>track_id = 3, persistent_id = ''id3'', artist = Some ''artist'', album = None,
     genre = None, size_bytes = 100, location = ''/music/three.mp3''\<rparr>"

definition scenario_C :: state where
  "scenario_C = usb\<lparr>tracks := {''id1'', ''id2'', ''id3''},
     itunes := \<lparr>music_folder = ''/music'', lib_tracks = [track_A1, track_A2, track_A3],
                 lib_playlists = []\<rparr>,
     max_file_count := 2, use_subfolders := True,
     files := [(''/music/one.mp3'', 600), (''/music/two.mp3'', 500), (''/music/three.mp3'', 100)]\<rparr>"

text \<open>
  A destination whose folder 0 is full (two visible files, one hidden file) and
  whose folder 1 does not exist.
\<close>

definition usb_full0 :: state where
  "usb_full0 = scenario_C\<lparr>dirs := [''/usb'', ''/usb/0''],
     files := [(''/usb/0/one.mp3'', 600), (''/usb/0/two.mp3'', 500), (''/usb/0/.hidden'', 1)]\<rparr>"

text \<open>
  Scenario D: tracks to copy whose source file is not there. In \<open>scenario_D1\<close> the
  only track of the plan has no source file; in \<open>scenario_D2\<close> the first track can
  be copied and the second has no source file.
\<close>

definition scenario_D1 :: state where
  "scenario_D1 = usb\<lparr>tracks := {''id1''},
     itunes := \<lparr>music_folder = ''/music'', lib_tracks = [track_A1], lib_playlists = []\<rparr>\<rparr>"

definition scenario_D2 :: state where
  "scenario_D2 = usb\<lparr>tracks := {''id1'', ''id2''},
     itunes := \<lparr>music_folder = ''/music'', lib_tracks = [track_A1, track_A2], lib_playlists = []\<rparr>,
     files := [(''/music/one.mp3'', 600)]\<rparr>"

text \<open>
  A cancellation flag that is false when \<open>copy_tracks\<close> is entered and at the first
  test of the loop, and true from the second test on: the caller sets it while the
  first track is being copied.
\<close>

definition set_after_first :: "nat \<Rightarrow> bool" where
  "set_after_first k = (2 \<le> k)"





text \<open>
  A destination where the store has an entry for a track and an entry whose path
  is that of a directory.
\<close>

definition usb_dir_entry :: state where
  "usb_dir_entry = usb_synced\<lparr>dirs := [''/usb'', ''/usb/0''],
     library_file := Some (Json [(''id1'', ''one.mp3''), (''idd'', ''0'')])\<rparr>"

text \<open>
  The destination of Scenario C when a regular file has the name of folder 0.
\<close>

definition usb_file0 :: state where
  "usb_file0 = scenario_C\<lparr>files := (''/usb/0'', 7) # files scenario_C\<rparr>"

section \<open>Properties of the planner\<close>

lemma main_pass_log_sound:
  "drop_log (main_pass_log ex inc cat (space, plan, adm)) = main_pass ex inc cat (space, plan)"
  by (induction cat arbitrary: space plan adm) (simp_all add: drop_log_def)

lemma fill_step_log_sound: "drop_log (fill_step_log ex t st) = fill_step ex t (drop_log st)"
  by (cases st) (simp add: fill_step_log_def fill_step_def drop_log_def)

lemma random_fill_log_sound:
  "drop_log (random_fill_log rnd k ex music st) = random_fill_loop rnd k ex music (drop_log st)"
proof (induction rnd k ex music st rule: random_fill_log.induct)
  case (1 rnd k ex music st)
  show ?case
  proof (cases "length music > 0")
    case False
    then show ?thesis by (simp add: random_fill_log.simps random_fill_loop.simps)
  next
    case True
    then show ?thesis
      using 1 [OF True refl refl]
      by (subst random_fill_log.simps, subst random_fill_loop.simps)
         (simp add: Let_def fill_step_log_sound)
  qed
qed

lemma planner_log_sound:
  "drop_log (planner_log rnd fill ex inc cat (space, plan, adm)) = planner rnd fill ex inc cat (space, plan)"
proof -
  obtain a b c where st: "main_pass_log ex inc cat (space, plan, adm) = (a, b, c)"
    by (cases "main_pass_log ex inc cat (space, plan, adm)")
  then have "main_pass ex inc cat (space, plan) = (a, b)"
    using main_pass_log_sound [of ex inc cat space plan adm] by (simp add: drop_log_def)
  with st show ?thesis
    using random_fill_log_sound [of rnd 0 ex cat "(a, b, c)"]
    by (simp add: planner_log_def planner_def drop_log_def Let_def)
qed

lemma admissions_append:
  "admissions a xs b \<Longrightarrow> admissions b ys c \<Longrightarrow> admissions a (xs @ ys) c"
  by (induction xs arbitrary: a) auto

lemma admissions_total:
  "admissions b adm b' \<Longrightarrow> b' = b - total_size adm"
proof (induction adm arbitrary: b)
  case Nil
  then show ?case by (simp add: total_size_def)
next
  case (Cons e es)
  from Cons.prems have "admissions (b - size_bytes (fst e)) es b'" by simp
  then have "b' = b - size_bytes (fst e) - total_size es" by (rule Cons.IH)
  then show ?case by (simp add: total_size_def)
qed

lemma admissions_nonneg:
  "admissions b adm b' \<Longrightarrow> 0 \<le> b \<or> adm \<noteq> [] \<Longrightarrow> 0 \<le> b'"
proof (induction adm arbitrary: b)
  case Nil
  then show ?case by simp
next
  case (Cons e es)
  from Cons.prems(1) have "0 \<le> b - size_bytes (fst e)" and "admissions (b - size_bytes (fst e)) es b'"
    by simp_all
  then show ?case using Cons.IH by blast
qed

lemma extends_refl: "extends ex cat st st"
  unfolding extends_def by (intro exI [of _ "[]"]) simp

lemma extends_trans: "extends ex cat a b \<Longrightarrow> extends ex cat b c \<Longrightarrow> extends ex cat a c"
  unfolding extends_def
proof (elim exE conjE)
  fix n1 n2
  assume a: "snd (snd b) = snd (snd a) @ n1" "admissions (fst a) n1 (fst b)"
    "fst (snd b) = fst (snd a) \<union> persistent_id ` fst ` set n1"
    "fst ` set n1 \<subseteq> {t \<in> set cat. \<not> is_filtered ex t}"
    and b: "snd (snd c) = snd (snd b) @ n2" "admissions (fst b) n2 (fst c)"
    "fst (snd c) = fst (snd b) \<union> persistent_id ` fst ` set n2"
    "fst ` set n2 \<subseteq> {t \<in> set cat. \<not> is_filtered ex t}"
  show "\<exists>new. snd (snd c) = snd (snd a) @ new \<and> admissions (fst a) new (fst c)
          \<and> fst (snd c) = fst (snd a) \<union> persistent_id ` fst ` set new
          \<and> fst ` set new \<subseteq> {t \<in> set cat. \<not> is_filtered ex t}"
  proof (intro exI [of _ "n1 @ n2"] conjI)
    show "snd (snd c) = snd (snd a) @ n1 @ n2" using a(1) b(1) by simp
    show "admissions (fst a) (n1 @ n2) (fst c)" using a(2) b(2) by (rule admissions_append)
    show "fst (snd c) = fst (snd a) \<union> persistent_id ` fst ` set (n1 @ n2)"
      using a(3) b(3) by (simp add: image_Un Un_assoc)
    show "fst ` set (n1 @ n2) \<subseteq> {t \<in> set cat. \<not> is_filtered ex t}"
      using a(4) b(4) by (simp add: image_Un)
  qed
qed

lemma extends_admit:
  "t \<in> set cat \<Longrightarrow> \<not> is_filtered ex t \<Longrightarrow> size_bytes t \<le> space \<Longrightarrow>
   extends ex cat (space, plan, adm) (space - size_bytes t, insert (persistent_id t) plan, adm @ [(t, space)])"
  unfolding extends_def by (intro exI [of _ "[(t, space)]"]) simp

lemma main_pass_log_extends:
  "extends ex cat (space, plan, adm) (main_pass_log ex inc cat (space, plan, adm))"
proof -
  have "set ts \<subseteq> set cat \<Longrightarrow> extends ex cat (space, plan, adm) (main_pass_log ex inc ts (space, plan, adm))"
    for ts
  proof (induction ts arbitrary: space plan adm)
    case Nil
    show ?case by (simp add: extends_refl)
  next
    case (Cons t ts)
    then have t: "t \<in> set cat" and ts: "set ts \<subseteq> set cat" by simp_all
    show ?case
    proof (cases "\<not> is_filtered ex t \<and> is_filtered inc t \<and> size_bytes t \<le> space")
      case True
      then have "extends ex cat (space, plan, adm)
          (space - size_bytes t, insert (persistent_id t) plan, adm @ [(t, space)])"
        using t by (simp add: extends_admit)
      moreover have "extends ex cat (space - size_bytes t, insert (persistent_id t) plan, adm @ [(t, space)])
          (main_pass_log ex inc ts (space - size_bytes t, insert (persistent_id t) plan, adm @ [(t, space)]))"
        by (rule Cons.IH [OF ts])
      ultimately have "extends ex cat (space, plan, adm)
          (main_pass_log ex inc ts (space - size_bytes t, insert (persistent_id t) plan, adm @ [(t, space)]))"
        by (rule extends_trans)
      then show ?thesis using True by simp
    next
      case False
      then have "main_pass_log ex inc (t # ts) (space, plan, adm) = main_pass_log ex inc ts (space, plan, adm)"
        by (cases "is_filtered ex t"; cases "is_filtered inc t") simp_all
      then show ?thesis using Cons.IH [OF ts] by simp
    qed
  qed
  then show ?thesis by simp
qed

lemma fill_step_log_extends:
  "t \<in> set cat \<Longrightarrow> extends ex cat st (fill_step_log ex t st)"
proof -
  assume t: "t \<in> set cat"
  obtain space plan adm where st: "st = (space, plan, adm)" by (cases st)
  show ?thesis
  proof (cases "\<not> is_filtered ex t \<and> persistent_id t \<notin> plan \<and> size_bytes t \<le> space")
    case True
    then show ?thesis using t by (simp add: st fill_step_log_def extends_admit)
  next
    case False
    then have "fill_step_log ex t st = st" by (auto simp: st fill_step_log_def)
    then show ?thesis by (simp add: extends_refl)
  qed
qed

lemma set_remove_nth: "set (remove_nth i xs) \<subseteq> set xs"
  by (auto simp: remove_nth_def dest: in_set_takeD in_set_dropD)

lemma random_fill_log_extends:
  "set music \<subseteq> set cat \<Longrightarrow> extends ex cat st (random_fill_log rnd k ex music st)"
proof (induction rnd k ex music st rule: random_fill_log.induct)
  case (1 rnd k ex music st)
  show ?case
  proof (cases "length music > 0")
    case False
    then show ?thesis by (simp add: random_fill_log.simps extends_refl)
  next
    case True
    let ?i = "rnd k mod length music"
    let ?t = "music ! ?i"
    from True have "?i < length music" by simp
    then have t: "?t \<in> set cat" using "1.prems" by (meson nth_mem subsetD)
    have rest: "set (remove_nth ?i music) \<subseteq> set cat"
      using set_remove_nth [of ?i music] "1.prems" by blast
    have "extends ex cat st (fill_step_log ex ?t st)" using t by (rule fill_step_log_extends)
    moreover have "extends ex cat (fill_step_log ex ?t st)
        (random_fill_log rnd (Suc k) ex (remove_nth ?i music) (fill_step_log ex ?t st))"
      by (rule "1.IH" [OF True refl refl rest])
    ultimately have "extends ex cat st
        (random_fill_log rnd (Suc k) ex (remove_nth ?i music) (fill_step_log ex ?t st))"
      by (rule extends_trans)
    then show ?thesis
      using True by (subst random_fill_log.simps) (simp add: Let_def)
  qed
qed

lemma planner_log_extends:
  "extends ex cat (space, plan, adm) (planner_log rnd fill ex inc cat (space, plan, adm))"
proof (cases fill)
  case False
  then show ?thesis by (simp add: planner_log_def main_pass_log_extends)
next
  case True
  have "extends ex cat (main_pass_log ex inc cat (space, plan, adm))
      (random_fill_log rnd 0 ex cat (main_pass_log ex inc cat (space, plan, adm)))"
    by (rule random_fill_log_extends) simp
  with main_pass_log_extends [of ex cat space plan adm inc]
  have "extends ex cat (space, plan, adm)
      (random_fill_log rnd 0 ex cat (main_pass_log ex inc cat (space, plan, adm)))"
    by (rule extends_trans)
  with True show ?thesis by (simp add: planner_log_def)
qed

lemma random_fill_log_idle:
  "(\<And>t. t \<in> set music \<Longrightarrow> fill_step_log ex t st = st) \<Longrightarrow> random_fill_log rnd k ex music st = st"
proof (induction rnd k ex music st rule: random_fill_log.induct)
  case (1 rnd k ex music st)
  show ?case
  proof (cases "length music > 0")
    case False
    then show ?thesis by (simp add: random_fill_log.simps)
  next
    case True
    let ?i = "rnd k mod length music"
    from True have "?i < length music" by simp
    then have step: "fill_step_log ex (music ! ?i) st = st" by (simp add: "1.prems")
    have "random_fill_log rnd (Suc k) ex (remove_nth ?i music) (fill_step_log ex (music ! ?i) st)
        = fill_step_log ex (music ! ?i) st"
    proof (rule "1.IH" [OF True refl refl])
      fix t
      assume "t \<in> set (remove_nth ?i music)"
      then have "t \<in> set music" using set_remove_nth [of ?i music] by blast
      then show "fill_step_log ex t (fill_step_log ex (music ! ?i) st) = fill_step_log ex (music ! ?i) st"
        by (simp add: step "1.prems")
    qed
    then show ?thesis using True step by (subst random_fill_log.simps) (simp add: Let_def)
  qed
qed

lemma scenario_A:
  assumes "size_bytes t1 = 600" "size_bytes t2 = 500"
    and "\<not> is_filtered ex t1" "is_filtered inc t1" "\<not> is_filtered ex t2" "is_filtered inc t2"
  shows "planner_log rnd fill ex inc [t1, t2] (1000, {}, []) = (400, {persistent_id t1}, [(t1, 1000)])"
proof -
  have main: "main_pass_log ex inc [t1, t2] (1000, {}, []) = (400, {persistent_id t1}, [(t1, 1000)])"
    using assms by simp
  have "fill_step_log ex t (400, {persistent_id t1}, [(t1, 1000)]) = (400, {persistent_id t1}, [(t1, 1000)])"
    if "t \<in> set [t1, t2]" for t
    using that assms by (auto simp: fill_step_log_def)
  then have "random_fill_log rnd 0 ex [t1, t2] (400, {persistent_id t1}, [(t1, 1000)])
      = (400, {persistent_id t1}, [(t1, 1000)])"
    by (rule random_fill_log_idle)
  then show ?thesis unfolding planner_log_def main by (simp add: Let_def)
qed

text \<open>
  Claim C1, amended. For every catalog, every draw sequence and every initial budget
  \<open>B\<close>: a track is admitted only at a remaining budget that is at least its size, and
  the admission takes exactly its size from the budget (\<open>admissions\<close>), so the budget
  left is \<open>B\<close> minus the sum of the admitted sizes. That sum is at most \<open>B\<close> when \<open>B\<close> is
  not negative or when at least one track was admitted. (With a negative budget and
  nothing admitted the sum is 0, which exceeds \<open>B\<close>: \<open>planner_budget_counterexample\<close>.)
  Scenario A: with budget 1000 and two included tracks of sizes 600 and 500 in
  catalog order, with or without the random fill, only the first is admitted and
  the budget left is 400.
\<close>

theorem planner_budget:
  assumes "planner_log rnd fill ex inc cat (B, plan, []) = (space', plan', adm)"
  shows "admissions B adm space'
    \<and> space' = B - total_size adm
    \<and> (0 \<le> B \<or> adm \<noteq> [] \<longrightarrow> total_size adm \<le> B)
    \<and> planner rnd fill ex inc cat (B, plan) = (space', plan')
    \<and> (\<forall>t1 t2. size_bytes t1 = 600 \<and> size_bytes t2 = 500
          \<and> \<not> is_filtered ex t1 \<and> is_filtered inc t1 \<and> \<not> is_filtered ex t2 \<and> is_filtered inc t2
          \<longrightarrow> planner_log rnd fill ex inc [t1, t2] (1000, {}, []) = (400, {persistent_id t1}, [(t1, 1000)]))"
proof -
  have "extends ex cat (B, plan, []) (space', plan', adm)"
    using planner_log_extends [of ex cat B plan "[]" rnd fill inc] assms by simp
  then have adm: "admissions B adm space'" by (simp add: extends_def)
  then have total: "space' = B - total_size adm" by (rule admissions_total)
  have "0 \<le> space'" if "0 \<le> B \<or> adm \<noteq> []" using adm that by (rule admissions_nonneg)
  with total have bound: "0 \<le> B \<or> adm \<noteq> [] \<longrightarrow> total_size adm \<le> B" by auto
  have sound: "planner rnd fill ex inc cat (B, plan) = (space', plan')"
    using planner_log_sound [of rnd fill ex inc cat B plan "[]"] assms by (simp add: drop_log_def)
  from adm total bound sound show ?thesis by (simp add: scenario_A)
qed

theorem planner_budget_witness:
  "planner_log id True HibikiConfigFilters_init includes_A [track_A1, track_A2] (1000, {}, [])
     = (400, {''id1''}, [(track_A1, 1000)])
   \<and> admissions 1000 [(track_A1, 1000)] 400
   \<and> total_size [(track_A1, 1000)] \<le> 1000
   \<and> planner id True HibikiConfigFilters_init includes_A [track_A1, track_A2] (1000, {}) = (400, {''id1''})"
proof -
  have run: "planner_log id True HibikiConfigFilters_init includes_A [track_A1, track_A2] (1000, {}, [])
     = (400, {''id1''}, [(track_A1, 1000)])"
    using scenario_A [of track_A1 track_A2 HibikiConfigFilters_init includes_A id True]
    by (simp add: track_A1_def track_A2_def includes_A_def HibikiConfigFilters_init_def
        is_filtered_def attr_val_def)
  from planner_budget [OF run] run show ?thesis by simp
qed

theorem planner_budget_counterexample:
  "\<not> total_size (snd (snd (planner_log id False HibikiConfigFilters_init includes_A
        [track_A1, track_A2] (- 1, {}, [])))) \<le> - 1"
  by (simp add: planner_log_def track_A1_def track_A2_def includes_A_def HibikiConfigFilters_init_def
      is_filtered_def attr_val_def total_size_def)

text \<open>
  Claim C4. A track that the exclude filters match is never admitted, in the main
  pass or in the random fill, also when the include filters match it; and the plan
  grows by exactly the identifiers of the admitted tracks. So the identifier of a
  track matched by both filter sets enters the plan only if it was there before, or
  if the catalog has another track of the same identifier that is not excluded.
\<close>

theorem exclusion_dominates:
  assumes "planner_log rnd fill ex inc cat (B, plan, []) = (space', plan', adm)"
  shows "(\<forall>t. is_filtered ex t \<and> is_filtered inc t \<longrightarrow> t \<notin> fst ` set adm)
    \<and> plan' = plan \<union> persistent_id ` fst ` set adm
    \<and> planner rnd fill ex inc cat (B, plan) = (space', plan')
    \<and> (\<forall>t. is_filtered ex t \<and> is_filtered inc t \<and> persistent_id t \<notin> plan
          \<and> (\<forall>u \<in> set cat. persistent_id u = persistent_id t \<longrightarrow> is_filtered ex u)
          \<longrightarrow> persistent_id t \<notin> plan')"
proof -
  have "extends ex cat (B, plan, []) (space', plan', adm)"
    using planner_log_extends [of ex cat B plan "[]" rnd fill inc] assms by simp
  then have plan': "plan' = plan \<union> persistent_id ` fst ` set adm"
    and sub: "fst ` set adm \<subseteq> {t \<in> set cat. \<not> is_filtered ex t}"
    by (simp_all add: extends_def)
  have sound: "planner rnd fill ex inc cat (B, plan) = (space', plan')"
    using planner_log_sound [of rnd fill ex inc cat B plan "[]"] assms by (simp add: drop_log_def)
  from sub have never: "\<forall>t. is_filtered ex t \<and> is_filtered inc t \<longrightarrow> t \<notin> fst ` set adm" by blast
  have ids: "persistent_id t \<notin> plan'"
    if "persistent_id t \<notin> plan" "\<forall>u \<in> set cat. persistent_id u = persistent_id t \<longrightarrow> is_filtered ex u"
    for t :: iTunesTrack
  proof
    assume "persistent_id t \<in> plan'"
    with plan' that(1) have "persistent_id t \<in> persistent_id ` fst ` set adm" by simp
    then obtain u where u: "u \<in> fst ` set adm" "persistent_id u = persistent_id t" by force
    with sub have "u \<in> set cat" "\<not> is_filtered ex u" by auto
    with that(2) u(2) show False by blast
  qed
  from never plan' sound ids show ?thesis by blast
qed

theorem exclusion_dominates_witness:
  "is_filtered excludes_X track_X \<and> is_filtered includes_A track_X
   \<and> planner_log id True excludes_X includes_A [track_X, track_A1] (1000, {}, [])
       = (400, {''id1''}, [(track_A1, 1000)])
   \<and> track_X \<notin> fst ` set [(track_A1, 1000 :: int)]
   \<and> persistent_id track_X \<notin> {''id1''}"
proof -
  have ex: "is_filtered excludes_X track_X" and inc: "is_filtered includes_A track_X"
    and ex1: "\<not> is_filtered excludes_X track_A1" and inc1: "is_filtered includes_A track_A1"
    by (simp_all add: track_X_def track_A1_def excludes_X_def includes_A_def
        HibikiConfigFilters_init_def is_filtered_def attr_val_def)
  have main: "main_pass_log excludes_X includes_A [track_X, track_A1] (1000, {}, [])
      = (400, {''id1''}, [(track_A1, 1000)])"
    using ex ex1 inc1 by (simp add: track_A1_def)
  have "fill_step_log excludes_X t (400, {''id1''}, [(track_A1, 1000)])
      = (400, {''id1''}, [(track_A1, 1000)])" if "t \<in> set [track_X, track_A1]" for t
    using that ex by (auto simp: fill_step_log_def track_A1_def)
  then have "random_fill_log id 0 excludes_X [track_X, track_A1] (400, {''id1''}, [(track_A1, 1000)])
      = (400, {''id1''}, [(track_A1, 1000)])"
    by (rule random_fill_log_idle)
  then have run: "planner_log id True excludes_X includes_A [track_X, track_A1] (1000, {}, [])
      = (400, {''id1''}, [(track_A1, 1000)])"
    unfolding planner_log_def main by (simp add: Let_def)
  have never: "track_X \<notin> fst ` set [(track_A1, 1000 :: int)]"
    by (rule exclusion_dominates [OF run, THEN conjunct1, THEN spec, THEN mp, OF conjI [OF ex inc]])
  have other: "persistent_id track_X \<notin> {''id1''}" by (simp add: track_X_def)
  show ?thesis by (intro conjI ex inc run never other)
qed

section \<open>Python dictionaries\<close>

lemma map_of_py_dict: "map_of (py_dict kvs) = map_of (rev kvs)"
proof (induction kvs rule: rev_induct)
  case Nil
  show ?case by (simp add: py_dict_def)
next
  case (snoc kv kvs)
  have "py_dict (kvs @ [kv]) = AList.update (fst kv) (snd kv) (py_dict kvs)"
    by (simp add: py_dict_def)
  then show ?case using snoc by (cases kv) (simp add: update_conv')
qed


lemma py_dict_distinct: "distinct (map fst kvs) \<Longrightarrow> map_of (py_dict kvs) = map_of kvs"
proof -
  assume d: "distinct (map fst kvs)"
  then have "distinct (map fst (rev kvs))" by (simp add: rev_map [symmetric])
  then have "map_of (rev kvs) = map_of kvs" using d by (simp add: map_of_inject_set)
  then show ?thesis by (simp add: map_of_py_dict)
qed

section \<open>The state store file\<close>

text \<open>
  Claim C10. If the state file exists and does not hold valid JSON, or is the
  zero-byte file that the first access of \<open>library_path\<close> has just created, the
  getter of \<open>library_data\<close> returns the empty dictionary and raises nothing; the
  file stays as it is until the next write through the setter, which replaces its
  content by the dictionary written, and the getter then reads that dictionary.
\<close>

theorem library_data_not_json:
  assumes "library_file s = Some Empty_file \<or> library_file s = Some Not_json
           \<or> (library_file s = None \<and> \<not> library_path_attr s)"
  shows "fst (library_data s) = Inr []
    \<and> (library_file (snd (library_data s)) = Some Empty_file
         \<or> library_file (snd (library_data s)) = Some Not_json)
    \<and> library_file (set_library_data v (snd (library_data s))) = Some (Json v)
    \<and> fst (library_data (set_library_data v (snd (library_data s)))) = Inr (py_dict v)"
  using assms by (auto simp: library_data_def library_path_def set_library_data_def Let_def)

theorem library_data_not_json_witness:
  "library_file usb = None \<and> \<not> library_path_attr usb
   \<and> library_data usb = (Inr [], usb\<lparr>library_path_attr := True, library_file := Some Empty_file\<rparr>)
   \<and> library_file (set_library_data [(''id1'', ''one.mp3'')] (snd (library_data usb)))
       = Some (Json [(''id1'', ''one.mp3'')])"
proof -
  have a: "library_file usb = None" and b: "\<not> library_path_attr usb" by (simp_all add: usb_def)
  have c: "library_data usb = (Inr [], usb\<lparr>library_path_attr := True, library_file := Some Empty_file\<rparr>)"
    by (simp add: library_data_def library_path_def Let_def a b)
  from library_data_not_json [of usb "[(''id1'', ''one.mp3'')]"] a b
  have "library_file (set_library_data [(''id1'', ''one.mp3'')] (snd (library_data usb)))
       = Some (Json [(''id1'', ''one.mp3'')])" by simp
  with a b c show ?thesis by (intro conjI)
qed

section \<open>Loading filter rules\<close>

lemma getattr_setattr_other: "g \<noteq> g' \<Longrightarrow> getattr (setattr g' v f) g = getattr f g"
  by (auto simp: getattr_def setattr_def)

lemma getattr_setattr_same:
  "g \<in> set [''albums'', ''artists'', ''genres'', ''playlists''] \<Longrightarrow> getattr (setattr g v f) g = v"
  by (auto simp: getattr_def setattr_def)

lemma load_groups_other:
  "load_groups data gs f = (None, f') \<Longrightarrow> g \<notin> set gs \<Longrightarrow> getattr f' g = getattr f g"
proof (induction gs arbitrary: f)
  case Nil
  then show ?case by simp
next
  case (Cons a gs)
  obtain v where v: "py_set (case map_of data a of None \<Rightarrow> JArr [] | Some x \<Rightarrow> x) = Inr v"
    and rest: "load_groups data gs (setattr a v f) = (None, f')"
    using Cons.prems(1) by (auto simp: Let_def split: sum.splits)
  from Cons.prems(2) have "g \<notin> set gs" "g \<noteq> a" by auto
  with Cons.IH [OF rest] show ?case by (simp add: getattr_setattr_other)
qed

lemma load_groups_absent:
  "load_groups data gs f = (None, f') \<Longrightarrow> g \<in> set gs \<Longrightarrow> distinct gs \<Longrightarrow>
   set gs \<subseteq> set [''albums'', ''artists'', ''genres'', ''playlists''] \<Longrightarrow>
   map_of data g = None \<Longrightarrow> getattr f' g = {}"
proof (induction gs arbitrary: f)
  case Nil
  then show ?case by simp
next
  case (Cons a gs)
  obtain v where v: "py_set (case map_of data a of None \<Rightarrow> JArr [] | Some x \<Rightarrow> x) = Inr v"
    and rest: "load_groups data gs (setattr a v f) = (None, f')"
    using Cons.prems(1) by (auto simp: Let_def split: sum.splits)
  show ?case
  proof (cases "g = a")
    case True
    with v Cons.prems(5) have "v = {}" by simp
    moreover from Cons.prems(3) True have "g \<notin> set gs" by simp
    then have "getattr f' g = getattr (setattr a v f) g" using rest by (rule load_groups_other [rotated])
    moreover from Cons.prems(4) True have "getattr (setattr a v f) g = v"
      using getattr_setattr_same [of g v f] by simp
    ultimately show ?thesis by simp
  next
    case False
    with Cons.prems have "g \<in> set gs" "distinct gs"
      "set gs \<subseteq> set [''albums'', ''artists'', ''genres'', ''playlists'']" by auto
    then show ?thesis using Cons.IH [OF rest] Cons.prems(5) by blast
  qed
qed

text \<open>
  Claim C9, amended. \<open>load_from_file\<close> reports content that is not valid JSON as
  \<open>InvalidConfigError\<close> with the message "Filter file cannot be read"; a missing file
  it reports as the \<open>FileNotFoundError\<close> that \<open>open\<close> raises, not as a configuration
  error. In each of these cases the filter sets are left as they were: no default
  is substituted. When an object is loaded without an error, a field that the
  object does not have is the empty set afterwards.
\<close>

theorem load_from_file_reports:
  "load_from_file None f = (Some FileNotFoundError, f)
   \<and> load_from_file (Some Empty_file) f = (Some (InvalidConfigError ''Filter file cannot be read''), f)
   \<and> load_from_file (Some Not_json) f = (Some (InvalidConfigError ''Filter file cannot be read''), f)
   \<and> (\<forall>kvs g f'. g \<in> set [''albums'', ''artists'', ''genres'', ''playlists'']
          \<and> g \<notin> fst ` set kvs
          \<and> load_from_file (Some (Json (JObj kvs))) f = (None, f')
        \<longrightarrow> getattr f' g = {})"
proof -
  have absent_empty: "getattr f' g = {}"
    if g: "g \<in> set [''albums'', ''artists'', ''genres'', ''playlists'']"
      and absent: "g \<notin> fst ` set kvs"
      and load: "load_from_file (Some (Json (JObj kvs))) f = (None, f')" for kvs g f'
  proof -
    from absent have "map_of (py_dict kvs) g = None"
      by (simp add: map_of_py_dict map_of_eq_None_iff)
    moreover from load
    have "load_groups (py_dict kvs) [''albums'', ''artists'', ''genres'', ''playlists''] f = (None, f')"
      by (simp add: load_from_file_def)
    ultimately show ?thesis using g by (intro load_groups_absent [where gs = "[''albums'', ''artists'', ''genres'', ''playlists'']"]) simp_all
  qed
  have p1: "load_from_file None f = (Some FileNotFoundError, f)"
    and p2: "load_from_file (Some Empty_file) f = (Some (InvalidConfigError ''Filter file cannot be read''), f)"
    and p3: "load_from_file (Some Not_json) f = (Some (InvalidConfigError ''Filter file cannot be read''), f)"
    by (simp_all add: load_from_file_def)
  have p4: "\<forall>kvs g f'. g \<in> set [''albums'', ''artists'', ''genres'', ''playlists'']
          \<and> g \<notin> fst ` set kvs
          \<and> load_from_file (Some (Json (JObj kvs))) f = (None, f')
        \<longrightarrow> getattr f' g = {}"
    using absent_empty by blast
  show ?thesis by (intro conjI p1 p2 p3 p4)
qed

theorem load_from_file_reports_counterexample:
  "fst (load_from_file None HibikiConfigFilters_init) = Some FileNotFoundError
   \<and> fst (load_from_file None HibikiConfigFilters_init) \<noteq> Some (InvalidConfigError ''Filter file cannot be read'')"
  by (simp add: load_from_file_def)

theorem load_from_file_reports_witness:
  "''genres'' \<in> set [''albums'', ''artists'', ''genres'', ''playlists'']
   \<and> ''genres'' \<notin> fst ` set [(''albums'', JArr [JStr ''Kid A''])]
   \<and> load_from_file (Some (Json (JObj [(''albums'', JArr [JStr ''Kid A''])]))) HibikiConfigFilters_init
       = (None, HibikiConfigFilters_init\<lparr>albums := {PStr ''Kid A''}\<rparr>)
   \<and> getattr (HibikiConfigFilters_init\<lparr>albums := {PStr ''Kid A''}\<rparr>) ''genres'' = {}"
proof -
  have a: "''genres'' \<in> set [''albums'', ''artists'', ''genres'', ''playlists'']" by simp
  have b: "''genres'' \<notin> fst ` set [(''albums'', JArr [JStr ''Kid A''])]" by simp
  have c: "load_from_file (Some (Json (JObj [(''albums'', JArr [JStr ''Kid A''])]))) HibikiConfigFilters_init
       = (None, HibikiConfigFilters_init\<lparr>albums := {PStr ''Kid A''}\<rparr>)"
    by (simp add: load_from_file_def py_dict_def setattr_def HibikiConfigFilters_init_def)
  have d: "getattr (HibikiConfigFilters_init\<lparr>albums := {PStr ''Kid A''}\<rparr>) ''genres'' = {}"
    by (rule load_from_file_reports [of HibikiConfigFilters_init, THEN conjunct2, THEN conjunct2,
          THEN conjunct2, THEN spec, THEN spec, THEN spec, THEN mp, OF conjI [OF a conjI [OF b c]]])
  show ?thesis by (intro conjI a b c d)
qed

section \<open>Space accounting\<close>



















section \<open>Reconciliation\<close>





lemma os_remove_Inr:
  "os_remove p s = Inr s1 \<Longrightarrow>
   map_of (files s) p \<noteq> None \<and> s1 = s\<lparr>files := AList.delete p (files s)\<rparr>"
  by (auto simp: os_remove_def split: if_splits)



























text \<open>
  A store entry that names a directory: the file of the first entry is deleted,
  then \<open>os.remove\<close> raises, and both entries are still in the store.
\<close>

lemma clean_sync_list_directory_entry:
  "fst (clean_sync_list True True usb_dir_entry) = Some IsADirectoryError
   \<and> file_exists (snd (clean_sync_list True True usb_dir_entry)) ''one.mp3'' = False
   \<and> store_entries (snd (clean_sync_list True True usb_dir_entry))
       = [(''id1'', ''one.mp3''), (''idd'', ''0'')]"
  by code_simp


section \<open>The destination directory\<close>

lemma file_count_subfolder: "file_count (s\<lparr>subfolder := n\<rparr>) d = file_count s d"
  by (simp add: file_count_def listdir_def)

lemma under_file_subfolder: "under_file (s\<lparr>subfolder := n\<rparr>) d = under_file s d"
  by (simp add: under_file_def)

text \<open>The three outcomes of \<open>os.makedirs\<close> in \<open>target_directory\<close>.\<close>

lemma subfolder_loop_new:
  assumes "path_join (destination s) (str (subfolder s)) \<notin> set (dirs s)"
    and "d = path_join (destination s) (str (subfolder s))"
  shows "subfolder_loop s =
     (if map_of (files s) d \<noteq> None then (Inl FileExistsError, s)
      else if under_file s d then (Inl NotADirectoryError, s)
      else (Inr d, s\<lparr>dirs := dirs s @ [d]\<rparr>))"
  using assms by (simp add: subfolder_loop.simps [of s] Let_def os_makedirs_def)

lemma subfolder_loop_result:
  "subfolder_loop s = (r, s') \<Longrightarrow> d = path_join (destination s) (str (subfolder s')) \<Longrightarrow>
   subfolder s \<le> subfolder s'
   \<and> ((d \<in> set (dirs s) \<and> int (file_count s d) < max_file_count s
          \<and> r = Inr d \<and> s' = s\<lparr>subfolder := subfolder s'\<rparr>)
        \<or> (d \<notin> set (dirs s) \<and> map_of (files s) d = None \<and> \<not> under_file s d
          \<and> r = Inr d \<and> s' = s\<lparr>subfolder := subfolder s', dirs := dirs s @ [d]\<rparr>)
        \<or> (d \<notin> set (dirs s) \<and> map_of (files s) d \<noteq> None
          \<and> r = Inl FileExistsError \<and> s' = s\<lparr>subfolder := subfolder s'\<rparr>)
        \<or> (d \<notin> set (dirs s) \<and> map_of (files s) d = None \<and> under_file s d
          \<and> r = Inl NotADirectoryError \<and> s' = s\<lparr>subfolder := subfolder s'\<rparr>))
   \<and> (\<forall>n. subfolder s \<le> n \<and> n < subfolder s'
          \<longrightarrow> path_join (destination s) (str n) \<in> set (dirs s)
              \<and> \<not> int (file_count s (path_join (destination s) (str n))) < max_file_count s)"
proof (induction s arbitrary: r s' d rule: subfolder_loop.induct)
  case (1 s)
  have p1: "subfolder_loop s = (r, s')" and p2: "d = path_join (destination s) (str (subfolder s'))"
    by (rule "1.prems")+
  let ?dir = "path_join (destination s) (str (subfolder s))"
  consider (found) "?dir \<in> set (dirs s)" "int (file_count s ?dir) < max_file_count s"
    | (full) "?dir \<in> set (dirs s)" "\<not> int (file_count s ?dir) < max_file_count s"
    | (new) "?dir \<notin> set (dirs s)"
    by blast
  then show ?case
  proof cases
    case found
    with p1 have "r = Inr ?dir" "s' = s" by (auto simp: subfolder_loop.simps [of s] Let_def)
    with found p2 show ?thesis by simp
  next
    case new
    note run = subfolder_loop_new [OF new refl]
    consider (regular) "map_of (files s) ?dir \<noteq> None"
      | (through) "map_of (files s) ?dir = None" "under_file s ?dir"
      | (fresh) "map_of (files s) ?dir = None" "\<not> under_file s ?dir"
      by blast
    then show ?thesis
    proof cases
      case regular
      with run p1 have "r = Inl FileExistsError" "s' = s" by simp_all
      with new regular p2 show ?thesis by simp
    next
      case through
      with run p1 have "r = Inl NotADirectoryError" "s' = s" by simp_all
      with new through p2 show ?thesis by simp
    next
      case fresh
      with run p1 have "r = Inr ?dir" "s' = s\<lparr>dirs := dirs s @ [?dir]\<rparr>" by simp_all
      with new fresh p2 show ?thesis by simp
    qed
  next
    case full
    let ?s1 = "s\<lparr>subfolder := subfolder s + 1\<rparr>"
    from full p1 have run: "subfolder_loop ?s1 = (r, s')"
      by (simp add: subfolder_loop.simps [of s] Let_def)
    from p2 have d1: "d = path_join (destination ?s1) (str (subfolder s'))" by simp
    note ih = "1.IH" [OF refl full run d1]
    from ih have le: "subfolder s + 1 \<le> subfolder s'" by simp
    from ih have alt: "(d \<in> set (dirs s) \<and> int (file_count s d) < max_file_count s
          \<and> r = Inr d \<and> s' = s\<lparr>subfolder := subfolder s'\<rparr>)
        \<or> (d \<notin> set (dirs s) \<and> map_of (files s) d = None \<and> \<not> under_file s d
          \<and> r = Inr d \<and> s' = s\<lparr>subfolder := subfolder s', dirs := dirs s @ [d]\<rparr>)
        \<or> (d \<notin> set (dirs s) \<and> map_of (files s) d \<noteq> None
          \<and> r = Inl FileExistsError \<and> s' = s\<lparr>subfolder := subfolder s'\<rparr>)
        \<or> (d \<notin> set (dirs s) \<and> map_of (files s) d = None \<and> under_file s d
          \<and> r = Inl NotADirectoryError \<and> s' = s\<lparr>subfolder := subfolder s'\<rparr>)"
      unfolding file_count_subfolder under_file_subfolder by simp
    have between: "path_join (destination s) (str n) \<in> set (dirs s)
              \<and> \<not> int (file_count s (path_join (destination s) (str n))) < max_file_count s"
      if "subfolder s \<le> n" "n < subfolder s'" for n
    proof (cases "n = subfolder s")
      case True
      with full show ?thesis by simp
    next
      case False
      with that have "subfolder ?s1 \<le> n" by simp
      with ih that(2) show ?thesis by (simp add: file_count_subfolder)
    qed
    from le have le': "subfolder s \<le> subfolder s'" by simp
    from between have between': "\<forall>n. subfolder s \<le> n \<and> n < subfolder s'
          \<longrightarrow> path_join (destination s) (str n) \<in> set (dirs s)
              \<and> \<not> int (file_count s (path_join (destination s) (str n))) < max_file_count s"
      by blast
    show ?thesis by (intro conjI le' alt between')
  qed
qed

lemma scenario_C_run:
  "fst (copy_tracks False False False None scenario_C) = None
   \<and> store_entries (snd (copy_tracks False False False None scenario_C))
       = [(''id1'', ''0/one.mp3''), (''id2'', ''0/two.mp3''), (''id3'', ''1/three.mp3'')]
   \<and> subfolder (snd (copy_tracks False False False None scenario_C)) = 1"
  by code_simp

lemma target_directory_subfolder: "subfolder s \<le> subfolder (snd (target_directory s))"
proof (cases "use_subfolders s")
  case True
  obtain r s' where run: "subfolder_loop s = (r, s')" by (cases "subfolder_loop s")
  from subfolder_loop_result [OF run refl] have "subfolder s \<le> subfolder s'" by (rule conjunct1)
  with True run show ?thesis by (simp add: target_directory_def)
next
  case False
  then show ?thesis by (simp add: target_directory_def)
qed

lemma copy_file_subfolder: "subfolder s \<le> subfolder (snd (copy_file t s))"
proof -
  obtain r s1 where td: "target_directory s = (r, s1)" by (cases "target_directory s")
  with target_directory_subfolder [of s] have "subfolder s \<le> subfolder s1" by simp
  with td show ?thesis
    by (cases r) (simp_all add: copy_file_def Let_def split: option.splits sum.splits)
qed

lemma mark_file_subfolder: "subfolder (snd (mark_file t d s)) = subfolder s"
  by (simp add: mark_file_def library_data_def library_path_def set_library_data_def Let_def
      split: option.splits file_content.splits)

lemma notify_subfolder: "subfolder (notify c e s) = subfolder s"
  by (simp add: notify_def)

lemma copy_loop_subfolder:
  "subfolder s \<le> subfolder (snd (snd (copy_loop acb bcb ecb flag k ts (dest, s))))"
proof (induction ts arbitrary: k dest s)
  case Nil
  show ?case by simp
next
  case (Cons track ts)
  let ?s1 = "notify bcb (Before_copy track) s"
  obtain res s2 where cf: "copy_file track ?s1 = (res, s2)" by (cases "copy_file track ?s1")
  have s2: "subfolder s \<le> subfolder s2"
    using copy_file_subfolder [of ?s1 track] cf by (simp add: notify_subfolder)
  have mf: "subfolder (snd (mark_file track d x)) = subfolder x" for d x
    by (rule mark_file_subfolder)
  have step: "subfolder x \<le> subfolder (snd (snd (copy_loop acb bcb ecb flag (Suc k) ts (dd, x))))" for dd x
    by (rule Cons.IH)
  show ?case
  proof (cases "flag k \<or> persistent_id track \<notin> tracks s")
    case True
    then show ?thesis using step [of s dest] by auto
  next
    case False
    show ?thesis
    proof (cases res)
      case (Inr d)
      obtain r s3 where m: "mark_file track d s2 = (r, s3)" by (cases "mark_file track d s2")
      with mf [of d s2] have "subfolder s3 = subfolder s2" by simp
      with s2 False cf Inr m step [of "notify acb (After_copy track) s3" "Some d"] show ?thesis
        by (cases r) (simp_all add: notify_subfolder)
    next
      case (Inl err)
      show ?thesis
      proof (cases dest)
        case None
        with s2 False cf Inl show ?thesis by simp
      next
        case (Some d)
        show ?thesis
        proof (cases "os_remove d s2")
          case raised: (Inl e)
          with s2 False cf Inl Some show ?thesis by simp
        next
          case removed: (Inr s3)
          from os_remove_Inr [OF removed] have s3: "subfolder s3 = subfolder s2" by simp
          obtain r s4 where m: "mark_file track d s3 = (r, s4)" by (cases "mark_file track d s3")
          with mf [of d s3] s3 have s4: "subfolder s4 = subfolder s2" by simp
          show ?thesis
          proof (cases ecb)
            case True
            with s2 s3 False cf Inl Some removed
              step [of "notify True (Copy_error track err) s3" dest]
            show ?thesis by (simp add: notify_subfolder)
          next
            case noecb: False
            with s2 False cf Inl Some removed m s4
              step [of "notify acb (After_copy track) s4" dest]
            show ?thesis by (cases r) (simp_all add: notify_subfolder)
          qed
        qed
      qed
    qed
  qed
qed

lemma copy_tracks_subfolder: "subfolder s \<le> subfolder (snd (copy_tracks acb bcb ecb end_signal s))"
proof -
  have "subfolder s \<le> subfolder (snd (snd (copy_loop acb bcb ecb flag 1 (lib_tracks (itunes s)) (None, s))))"
    for flag by (rule copy_loop_subfolder)
  then show ?thesis by (simp add: copy_tracks_def Let_def split_beta)
qed

text \<open>
  Claim C8, amended. With subfoldering enabled, the loop of \<open>target_directory\<close>
  always ends (by the definition of \<open>subfolder_loop\<close>), the index \<open>_subfolder\<close> is not
  lower afterwards, and with \<open>d\<close> the numbered folder of the new index, one of four
  things has happened:
  \<^item> \<open>d\<close> existed with fewer visible files than the maximum: it is returned, and
    nothing but the index has changed;
  \<^item> nothing was at \<open>d\<close>: it has been created and is returned;
  \<^item> a regular file has the name \<open>d\<close>: \<open>os.makedirs\<close> raises \<open>FileExistsError\<close>,
    nothing is returned and nothing is created;
  \<^item> the path \<open>d\<close> runs through a regular file: \<open>os.makedirs\<close> raises
    \<open>NotADirectoryError\<close>, nothing is returned and nothing is created.

  Every index passed over named an existing folder that was full. A whole run of
  \<open>copy_tracks\<close> does not lower the index either. Scenario C: with at most 2 files
  per folder and an empty destination, three tracks copied in sequence land in the
  folders 0, 0 and 1.
\<close>

theorem target_directory_subfolders:
  assumes "use_subfolders s" and "target_directory s = (r, s')"
    and "d = path_join (destination s) (str (subfolder s'))"
  shows "subfolder s \<le> subfolder s'
    \<and> ((d \<in> set (dirs s) \<and> int (file_count s d) < max_file_count s
          \<and> r = Inr d \<and> s' = s\<lparr>subfolder := subfolder s'\<rparr>)
        \<or> (d \<notin> set (dirs s) \<and> map_of (files s) d = None \<and> \<not> under_file s d
          \<and> r = Inr d \<and> s' = s\<lparr>subfolder := subfolder s', dirs := dirs s @ [d]\<rparr>)
        \<or> (d \<notin> set (dirs s) \<and> map_of (files s) d \<noteq> None
          \<and> r = Inl FileExistsError \<and> s' = s\<lparr>subfolder := subfolder s'\<rparr>)
        \<or> (d \<notin> set (dirs s) \<and> map_of (files s) d = None \<and> under_file s d
          \<and> r = Inl NotADirectoryError \<and> s' = s\<lparr>subfolder := subfolder s'\<rparr>))
    \<and> (\<forall>n. subfolder s \<le> n \<and> n < subfolder s'
          \<longrightarrow> path_join (destination s) (str n) \<in> set (dirs s)
              \<and> \<not> int (file_count s (path_join (destination s) (str n))) < max_file_count s)
    \<and> (\<forall>acb bcb ecb end_signal. subfolder s \<le> subfolder (snd (copy_tracks acb bcb ecb end_signal s)))
    \<and> fst (copy_tracks False False False None scenario_C) = None
    \<and> store_entries (snd (copy_tracks False False False None scenario_C))
        = [(''id1'', ''0/one.mp3''), (''id2'', ''0/two.mp3''), (''id3'', ''1/three.mp3'')]"
proof -
  from assms have run: "subfolder_loop s = (r, s')" by (simp add: target_directory_def)
  note res = subfolder_loop_result [OF run assms(3)]
  have mono: "\<forall>acb bcb ecb end_signal. subfolder s \<le> subfolder (snd (copy_tracks acb bcb ecb end_signal s))"
    by (simp add: copy_tracks_subfolder)
  from scenario_C_run have c1: "fst (copy_tracks False False False None scenario_C) = None"
    and c2: "store_entries (snd (copy_tracks False False False None scenario_C))
        = [(''id1'', ''0/one.mp3''), (''id2'', ''0/two.mp3''), (''id3'', ''1/three.mp3'')]"
    by simp_all
  note r1 = res [THEN conjunct1]
  note r2 = res [THEN conjunct2, THEN conjunct1]
  note r3 = res [THEN conjunct2, THEN conjunct2]
  show ?thesis by (intro conjI r1 r2 r3 mono c1 c2)
qed

theorem target_directory_subfolders_counterexample:
  "use_subfolders usb_file0 \<and> subfolder usb_file0 = 0
   \<and> map_of (files usb_file0) ''/usb/0'' = Some 7
   \<and> fst (target_directory usb_file0) = Inl FileExistsError
   \<and> dirs (snd (target_directory usb_file0)) = dirs usb_file0"
  by code_simp

lemma usb_full0_run:
  "use_subfolders usb_full0 \<and> subfolder usb_full0 = 0
   \<and> fst (target_directory usb_full0) = Inr ''/usb/1''
   \<and> subfolder (snd (target_directory usb_full0)) = 1
   \<and> dirs (snd (target_directory usb_full0)) = [''/usb'', ''/usb/0'', ''/usb/1'']
   \<and> file_count usb_full0 ''/usb/0'' = 2"
  by code_simp

theorem target_directory_subfolders_witness:
  "use_subfolders usb_full0 \<and> subfolder usb_full0 = 0
   \<and> fst (target_directory usb_full0) = Inr ''/usb/1''
   \<and> subfolder (snd (target_directory usb_full0)) = 1
   \<and> path_join (destination usb_full0) (str 0) \<in> set (dirs usb_full0)
   \<and> \<not> int (file_count usb_full0 (path_join (destination usb_full0) (str 0))) < max_file_count usb_full0
   \<and> ''/usb/1'' \<notin> set (dirs usb_full0)"
proof -
  from usb_full0_run have a: "use_subfolders usb_full0" and b: "subfolder usb_full0 = 0"
    and c: "fst (target_directory usb_full0) = Inr ''/usb/1''"
    and d: "subfolder (snd (target_directory usb_full0)) = 1" by simp_all
  have run: "target_directory usb_full0 = (fst (target_directory usb_full0), snd (target_directory usb_full0))"
    by simp
  note th = target_directory_subfolders [OF a run refl]
  from th have "\<forall>n. subfolder usb_full0 \<le> n \<and> n < subfolder (snd (target_directory usb_full0))
          \<longrightarrow> path_join (destination usb_full0) (str n) \<in> set (dirs usb_full0)
              \<and> \<not> int (file_count usb_full0 (path_join (destination usb_full0) (str n)))
                   < max_file_count usb_full0"
    by (rule conjunct2 [THEN conjunct2, THEN conjunct1])
  then have e: "path_join (destination usb_full0) (str 0) \<in> set (dirs usb_full0)
      \<and> \<not> int (file_count usb_full0 (path_join (destination usb_full0) (str 0))) < max_file_count usb_full0"
    using b d by simp
  have f: "''/usb/1'' \<notin> set (dirs usb_full0)" by (simp add: usb_full0_def)
  from a b c d e f show ?thesis by (intro conjI) simp_all
qed

section \<open>The copy phase\<close>

text \<open>
  Claim C2 says that a track whose copy raises an I/O error has its partial
  destination file removed, gets an error notification and no entry in the state
  store, and that the loop goes on, with or without an error callback. The code
  does otherwise, since in the handler \<open>destination\<close> is not the path of the track
  that failed. In \<open>scenario_D1\<close> the first copy fails: \<open>destination\<close> is unbound, and
  \<open>UnboundLocalError\<close> leaves \<open>copy_tracks\<close> before any error notification, although
  an error callback is registered. In \<open>scenario_D2\<close> the second copy fails: the file
  removed is the one of the first track, which stays in the state store; and
  without an error callback the track that failed is entered in the state store,
  under the path of the first track, and reported as copied.
\<close>

theorem copy_tracks_failed_copy:
  "fst (copy_tracks True True True None scenario_D1) = Some UnboundLocalError
   \<and> events (snd (copy_tracks True True True None scenario_D1)) = [Before_copy track_A1]
   \<and> fst (copy_tracks True True True None scenario_D2) = None
   \<and> events (snd (copy_tracks True True True None scenario_D2))
       = [Before_copy track_A1, After_copy track_A1, Before_copy track_A2,
          Copy_error track_A2 FileNotFoundError]
   \<and> store_entries (snd (copy_tracks True True True None scenario_D2)) = [(''id1'', ''one.mp3'')]
   \<and> file_exists (snd (copy_tracks True True True None scenario_D2)) ''one.mp3'' = False
   \<and> store_entries (snd (copy_tracks True True False None scenario_D2))
       = [(''id1'', ''one.mp3''), (''id2'', ''one.mp3'')]
   \<and> events (snd (copy_tracks True True False None scenario_D2))
       = [Before_copy track_A1, After_copy track_A1, Before_copy track_A2, After_copy track_A2]"
  by code_simp

text \<open>
  Claim C7 says that \<open>copy_tracks\<close> can be cancelled through \<open>end_signal\<close>: the loop
  stops as soon as the flag is true. The code does otherwise: when the flag is
  false as \<open>copy_tracks\<close> is entered, the local name is bound to the constant \<open>False\<close>,
  and whatever the caller does to the flag later, the run is the run without a
  flag. (A flag that is true on entry ends the loop before the first track.)
\<close>

theorem copy_tracks_ignores_flag:
  assumes "\<not> flag 0"
  shows "copy_tracks after_callback before_callback error_callback (Some flag) s
       = copy_tracks after_callback before_callback error_callback None s"
  using assms by (simp add: copy_tracks_def)

theorem copy_tracks_ignores_flag_witness:
  "\<not> set_after_first 0 \<and> set_after_first 2
   \<and> store_entries (snd (copy_tracks False False False (Some set_after_first) scenario_C))
       = [(''id1'', ''0/one.mp3''), (''id2'', ''0/two.mp3''), (''id3'', ''1/three.mp3'')]"
proof -
  have a: "\<not> set_after_first 0" and b: "set_after_first 2" by (simp_all add: set_after_first_def)
  have "store_entries (snd (copy_tracks False False False None scenario_C))
       = [(''id1'', ''0/one.mp3''), (''id2'', ''0/two.mp3''), (''id3'', ''1/three.mp3'')]"
    using scenario_C_run by simp
  then have c: "store_entries (snd (copy_tracks False False False (Some set_after_first) scenario_C))
       = [(''id1'', ''0/one.mp3''), (''id2'', ''0/two.mp3''), (''id3'', ''1/three.mp3'')]"
    by (simp only: copy_tracks_ignores_flag [of set_after_first, OF a])
  show ?thesis by (intro conjI a b c)
qed

end
